theory Spec2Isabelle
  imports Main "HOL-Library.Sublist"
begin

section \<open>table2md: a shallow embedding of \<open>src/table2md/__init__.py\<close>\<close>

text \<open>
  The module holds one class, \<open>MarkdownTable\<close>, whose only attribute \<open>data\<close> is a list of
  rows, each a list of strings, the first row being the header. The functions below follow
  the methods of that class. A Python \<open>str\<close> is a \<^typ>\<open>string\<close>, a list is a HOL list, an
  exception is the \<open>Inl\<close> branch of a sum, and the table a method works on is the value of
  \<open>self.data\<close>. Only the copying builder \<open>from_2d_iterable\<close> is modelled over an explicit
  store of mutable containers, because what it promises is about sharing.
\<close>

subsection \<open>Exceptions\<close>

text \<open>
  \<open>NoData\<close> and \<open>MisalignedRows\<close> are the two subclasses of \<open>InvalidData\<close> declared by the
  module; each carries its message. \<open>KeyError\<close>, \<open>IndexError\<close>, \<open>ValueError\<close> and
  \<open>TypeError\<close> are the builtin exceptions that subscripting a dict, subscripting a list,
  \<open>max\<close> of an empty sequence and iterating a non-iterable raise.
\<close>

datatype error =
    NoData string
  | MisalignedRows string
  | KeyError string
  | IndexError
  | ValueError
  | TypeError

subsection \<open>Builtins used by the module\<close>

text \<open>\<open>str(n)\<close> for a non-negative integer: its decimal digits.\<close>

definition digit_char :: "nat \<Rightarrow> char" where
  "digit_char n = ''0123456789'' ! n"

fun str_nat :: "nat \<Rightarrow> string" where
  "str_nat n = (if n < 10 then [digit_char n] else str_nat (n div 10) @ [digit_char (n mod 10)])"

text \<open>\<open>sep.join(xs)\<close>.\<close>

fun join :: "string \<Rightarrow> string list \<Rightarrow> string" where
  "join sep [] = []"
| "join sep [x] = x"
| "join sep (x # y # ys) = x @ sep @ join sep (y # ys)"

text \<open>
  A comprehension or generator whose element expression may raise: the elements are
  computed from left to right and the first exception ends the whole expression.
\<close>

fun collect :: "('a \<Rightarrow> error + 'b) \<Rightarrow> 'a list \<Rightarrow> error + 'b list" where
  "collect f [] = Inr []"
| "collect f (x # xs) =
     (case f x of
        Inl e \<Rightarrow> Inl e
      | Inr y \<Rightarrow> (case collect f xs of Inl e \<Rightarrow> Inl e | Inr ys \<Rightarrow> Inr (y # ys)))"

text \<open>\<open>xs[i]\<close> for a non-negative index: \<open>IndexError\<close> out of range.\<close>

definition nth_py :: "'a list \<Rightarrow> nat \<Rightarrow> error + 'a" where
  "nth_py xs i = (if i < length xs then Inr (xs ! i) else Inl IndexError)"

text \<open>
  \<open>s.center(width)\<close> as CPython computes it: with \<open>marg = width - len(s)\<close> the left padding is
  \<open>marg / 2 + (marg & width & 1)\<close> and the right padding is the rest, so that
  \<open>'ab'.center(5) == '  ab '\<close> and \<open>'a'.center(4) == ' a  '\<close>.
  \<open>s.ljust(width)\<close> pads on the right. Both return \<open>s\<close> itself when it is already wide enough.
\<close>

definition center :: "string \<Rightarrow> nat \<Rightarrow> string" where
  "center s width =
     (if width \<le> length s then s
      else
        let marg = width - length s;
            left = marg div 2 + (if odd marg \<and> odd width then 1 else 0)
        in replicate left CHR '' '' @ s @ replicate (marg - left) CHR '' '')"

definition ljust :: "string \<Rightarrow> nat \<Rightarrow> string" where
  "ljust s width = s @ replicate (width - length s) CHR '' ''"

text \<open>
  \<open>zip(*rows)\<close>: the columns of \<open>rows\<close>, as many as the shortest row has cells; no column at
  all when there is no row.
\<close>

definition zip_star :: "'a list list \<Rightarrow> 'a list list" where
  "zip_star rows =
     (if rows = [] then []
      else map (\<lambda>i. map (\<lambda>r. r ! i) rows) [0..<Min (set (map length rows))])"

text \<open>\<open>max(...)\<close> of a sequence of lengths: \<open>ValueError\<close> when the sequence is empty.\<close>

fun py_max :: "nat list \<Rightarrow> error + nat" where
  "py_max [] = Inl ValueError"
| "py_max (x # xs) = Inr (fold max xs x)"

subsection \<open>\<open>MarkdownTable.validate\<close>\<close>

text \<open>
  The message of \<open>MisalignedRows\<close>:
  \<open>f"expected {header_len} cells, violated by rows " + ", ".join(map(str, invalid_rows))\<close>.
\<close>

definition misaligned_msg :: "nat \<Rightarrow> nat list \<Rightarrow> string" where
  "misaligned_msg header_len invalid_rows =
     ''expected '' @ str_nat header_len @ '' cells, violated by rows ''
       @ join '', '' (map str_nat invalid_rows)"

definition validate :: "string list list \<Rightarrow> error + unit" where
  "validate d =
     (if d = [] then Inl (NoData ''missing header row'')
      else if length d = 1 then Inl (NoData ''only the header is present'')
      else
        let header_len = length (d ! 0);
            invalid_rows = map fst (filter (\<lambda>(idx, row). length row \<noteq> header_len)
                                           (enumerate 1 (drop 1 d)))
        in if invalid_rows \<noteq> [] then Inl (MisalignedRows (misaligned_msg header_len invalid_rows))
           else Inr ())"

subsection \<open>\<open>MarkdownTable.__str__\<close>\<close>

text \<open>
  \<open>col_sizes\<close> is the list comprehension over \<open>zip(*self.data)\<close>. The three parts of the text
  are the header line, the separator line and one line per row of \<open>self.data[1:]\<close>;
  \<open>col_sizes[col_idx]\<close> raises \<open>IndexError\<close> for a cell beyond the last column that
  \<open>zip\<close> produced, and so does \<open>self.data[0]\<close> on a table without rows.
\<close>

definition col_sizes :: "string list list \<Rightarrow> error + nat list" where
  "col_sizes d = collect (\<lambda>col. py_max (map length col)) (zip_star d)"

definition header_line :: "nat list \<Rightarrow> string list \<Rightarrow> error + string" where
  "header_line sizes header =
     (case collect (\<lambda>(col_idx, cell).
                      case nth_py sizes col_idx of
                        Inl e \<Rightarrow> Inl e
                      | Inr w \<Rightarrow> Inr (center cell (w + 2)))
                   (enumerate 0 header) of
        Inl e \<Rightarrow> Inl e
      | Inr cells \<Rightarrow> Inr (''|'' @ join ''|'' cells @ ''|\<newline>''))"

definition separator_line :: "nat list \<Rightarrow> string" where
  "separator_line sizes =
     ''|'' @ join ''|'' (map (\<lambda>col_size. replicate (col_size + 2) CHR ''-'') sizes) @ ''|\<newline>''"

definition data_line :: "nat list \<Rightarrow> string list \<Rightarrow> error + string" where
  "data_line sizes row =
     (case collect (\<lambda>(col_idx, cell).
                      case nth_py sizes col_idx of
                        Inl e \<Rightarrow> Inl e
                      | Inr w \<Rightarrow> Inr (ljust cell w))
                   (enumerate 0 row) of
        Inl e \<Rightarrow> Inl e
      | Inr cells \<Rightarrow> Inr (''| '' @ join '' | '' cells @ '' |\<newline>''))"

definition str_table :: "string list list \<Rightarrow> error + string" where
  "str_table d =
     (case col_sizes d of
        Inl e \<Rightarrow> Inl e
      | Inr sizes \<Rightarrow>
          (case nth_py d 0 of
             Inl e \<Rightarrow> Inl e
           | Inr header \<Rightarrow>
               (case header_line sizes header of
                  Inl e \<Rightarrow> Inl e
                | Inr x1 \<Rightarrow>
                    (case collect (data_line sizes) (drop 1 d) of
                       Inl e \<Rightarrow> Inl e
                     | Inr ls \<Rightarrow> Inr (x1 @ separator_line sizes @ concat ls)))))"

subsection \<open>\<open>MarkdownTable.print\<close>\<close>

text \<open>
  \<open>self.validate()\<close>, then \<open>print(str(self), end=end, file=file, flush=flush)\<close>. The sink is
  the text written to \<open>file\<close> so far; \<open>print\<close> writes its argument and then \<open>end\<close>. The
  result pairs the outcome with the sink afterwards. \<open>end\<close> defaults to the empty string.
  Flushing changes nothing that the model observes.
\<close>

definition print_table :: "string list list \<Rightarrow> string \<Rightarrow> string \<Rightarrow> (error + unit) \<times> string" where
  "print_table d end_str file =
     (case validate d of
        Inl e \<Rightarrow> (Inl e, file)
      | Inr _ \<Rightarrow>
          (case str_table d of
             Inl e \<Rightarrow> (Inl e, file)
           | Inr s \<Rightarrow> (Inr (), file @ s @ end_str)))"

definition default_end :: string where
  "default_end = []"

subsection \<open>\<open>MarkdownTable.from_dicts\<close>\<close>

text \<open>
  A \<open>dict\<close> keeps its keys in insertion order: it is a list of key-value pairs. \<open>d.keys()\<close>
  lists the keys in that order and \<open>d[k]\<close> raises \<open>KeyError\<close> for a key that is not there.
  The values are arbitrary; \<open>str\<close>, the conversion of a value to its text, is a parameter.
  The loop carries \<open>data\<close>: the first mapping appends its keys as the header before its
  own row is appended.
\<close>

type_synonym 'a py_dict = "(string \<times> 'a) list"

definition dict_keys :: "'a py_dict \<Rightarrow> string list" where
  "dict_keys d = map fst d"

definition dict_getitem :: "'a py_dict \<Rightarrow> string \<Rightarrow> error + 'a" where
  "dict_getitem d k = (case map_of d k of None \<Rightarrow> Inl (KeyError k) | Some v \<Rightarrow> Inr v)"

text \<open>The row of one mapping: \<open>[str(d[k]) for k in data[0]]\<close>.\<close>

definition dict_row :: "('a \<Rightarrow> string) \<Rightarrow> string list \<Rightarrow> 'a py_dict \<Rightarrow> error + string list" where
  "dict_row str header d =
     collect (\<lambda>k. case dict_getitem d k of Inl e \<Rightarrow> Inl e | Inr v \<Rightarrow> Inr (str v)) header"

fun from_dicts_loop ::
  "('a \<Rightarrow> string) \<Rightarrow> 'a py_dict list \<Rightarrow> string list list \<Rightarrow> error + string list list" where
  "from_dicts_loop str [] data = Inr data"
| "from_dicts_loop str (d # ds) data =
     (let data1 = (if data = [] then data @ [dict_keys d] else data)
      in case dict_row str (data1 ! 0) d of
           Inl e \<Rightarrow> Inl e
         | Inr row \<Rightarrow> from_dicts_loop str ds (data1 @ [row]))"

definition from_dicts :: "('a \<Rightarrow> string) \<Rightarrow> 'a py_dict list \<Rightarrow> error + string list list" where
  "from_dicts str dicts = from_dicts_loop str dicts []"

subsection \<open>\<open>MarkdownTable.from_namedtuples\<close> and \<open>MarkdownTable.from_serializable\<close>\<close>

text \<open>
  The two protocols of the module: a \<open>_NamedTupleLike\<close> has \<open>_fields\<close> and can be iterated,
  a \<open>_Serializable\<close> has \<open>_fields\<close> and \<open>serialize()\<close>. Nothing ties the number of fields of
  a record to the number of values it yields. Both loops take the header from the first
  record and never look at the fields of a later one.
\<close>

record 'a named_tuple_like =
  nt_fields :: "string list"
  nt_iter :: "'a list"

record serializable =
  sz_fields :: "string list"
  sz_serialize :: "string list"

fun from_namedtuples_loop ::
  "('a \<Rightarrow> string) \<Rightarrow> 'a named_tuple_like list \<Rightarrow> string list list \<Rightarrow> string list list" where
  "from_namedtuples_loop str [] data = data"
| "from_namedtuples_loop str (nt # nts) data =
     (let data1 = (if data = [] then data @ [nt_fields nt] else data)
      in from_namedtuples_loop str nts (data1 @ [map str (nt_iter nt)]))"

definition from_namedtuples ::
  "('a \<Rightarrow> string) \<Rightarrow> 'a named_tuple_like list \<Rightarrow> string list list" where
  "from_namedtuples str named_tuples = from_namedtuples_loop str named_tuples []"

fun from_serializable_loop :: "serializable list \<Rightarrow> string list list \<Rightarrow> string list list" where
  "from_serializable_loop [] data = data"
| "from_serializable_loop (nt # nts) data =
     (let data1 = (if data = [] then data @ [sz_fields nt] else data)
      in from_serializable_loop nts (data1 @ [sz_serialize nt]))"

definition from_serializable :: "serializable list \<Rightarrow> string list list" where
  "from_serializable named_tuples = from_serializable_loop named_tuples []"

subsection \<open>\<open>MarkdownTable.__init__\<close> and \<open>MarkdownTable.from_2d_iterable\<close>, over a store\<close>

text \<open>
  Python lists are objects that several names can share, and \<open>from_2d_iterable\<close> takes any
  iterable of iterables of any values. A value is a \<open>str\<close>, a reference to a mutable
  container in the store (a list, for one), or some other, immutable value. The store is
  the list of the containers allocated so far, each given by the sequence of values that
  iterating it yields; an address is an index into the store and a new container goes to
  the end.

  Three builtins are parameters, since their code is not part of the module: \<open>str_obj\<close> is
  \<open>str(x)\<close> for an immutable value that is not a \<open>str\<close>, \<open>iter_obj\<close> is what iterating such
  a value yields (\<open>None\<close> when it is not iterable: a tuple and a range are, a number is
  not), and \<open>str_list\<close> is the text of a container, which depends on what the store holds.
  \<open>str(s)\<close> of a \<open>str\<close> is \<open>s\<close> itself, and iterating a \<open>str\<close> yields its characters, each
  a \<open>str\<close> of length one. Iterating what is not iterable is a \<open>TypeError\<close>; so is, in
  the model, following an address beyond the store, which no Python value holds.
\<close>

type_synonym addr = nat








text \<open>
  \<open>__init__\<close> keeps the reference it is given. \<open>from_2d_iterable\<close> evaluates
  \<open>[[str(cell) for cell in row] for row in iters]\<close>: for every row that iterating \<open>iters\<close>
  yields, in order, a new list of the texts of the cells that iterating the row yields,
  then the new list of the rows, which it hands to \<open>__init__\<close>.
\<close>

record MarkdownTable =
  data :: addr









subsection \<open>The rendering rules in the words of the specification\<close>

text \<open>
  The width of a column is the greatest length of a cell of that column, the header
  included. \<open>spec_center\<close> centres a cell as the specification words it: the padding is
  split evenly and a single extra space goes to the right. \<open>parity_center\<close> is the rule that
  the header line is compared with after that: the padding is split evenly and a single
  extra space goes to the right when the column width is even, to the left when it is odd.
  The header row is the centred cells joined by bars between a leading and a trailing bar.
\<close>

definition spec_col_width :: "string list list \<Rightarrow> nat \<Rightarrow> nat" where
  "spec_col_width d j = Max (set (map (\<lambda>row. length (row ! j)) d))"

definition spec_center :: "string \<Rightarrow> nat \<Rightarrow> string" where
  "spec_center cell cw =
     (let pad = cw + 2 - length cell; small = pad div 2; big = pad - small
      in replicate small CHR '' '' @ cell @ replicate big CHR '' '')"

definition parity_center :: "string \<Rightarrow> nat \<Rightarrow> string" where
  "parity_center cell cw =
     (let pad = cw + 2 - length cell; small = pad div 2; big = pad - small
      in if even cw then replicate small CHR '' '' @ cell @ replicate big CHR '' ''
         else replicate big CHR '' '' @ cell @ replicate small CHR '' '')"

definition header_row_with :: "(string \<Rightarrow> nat \<Rightarrow> string) \<Rightarrow> string list list \<Rightarrow> string" where
  "header_row_with centred d =
     ''|'' @ join ''|'' (map (\<lambda>j. centred (d ! 0 ! j) (spec_col_width d j)) [0..<length (d ! 0)])
       @ ''|''"

definition renders_header :: "string \<Rightarrow> string list list \<Rightarrow> bool" where
  "renders_header row d =
     (case str_table d of Inl e \<Rightarrow> False | Inr s \<Rightarrow> prefix (row @ ''\<newline>'') s)"

section \<open>Auxiliary facts\<close>

lemma enumerate_as_map:
  "enumerate k xs = map (\<lambda>i. (i, xs ! (i - k))) [k..<k + length xs]"
  by (rule nth_equalityI) (simp_all add: nth_enumerate_eq)

lemma enumerate_filter_indices:
  "map fst (filter (\<lambda>(idx, row). P row) (enumerate k xs))
     = filter (\<lambda>i. P (xs ! (i - k))) [k..<k + length xs]"
  by (simp add: enumerate_as_map filter_map comp_def)

lemma invalid_rows_eq:
  "map fst (filter (\<lambda>(idx, row). length row \<noteq> n) (enumerate 1 (drop 1 d)))
     = filter (\<lambda>i. length (d ! i) \<noteq> n) [1..<length d]"
proof (cases d)
  case Nil
  then show ?thesis by simp
next
  case (Cons h t)
  have "filter (\<lambda>i. length (t ! (i - 1)) \<noteq> n) [1..<1 + length t]
          = filter (\<lambda>i. length ((h # t) ! i) \<noteq> n) [1..<1 + length t]"
    by (rule filter_cong) (auto simp: nth_Cons')
  with Cons show ?thesis
    using enumerate_filter_indices [of "\<lambda>row. length row \<noteq> n" 1 t] by simp
qed

lemma validate_unfold:
  "validate d =
     (if length d < 2
      then Inl (NoData (if d = [] then ''missing header row'' else ''only the header is present''))
      else if filter (\<lambda>i. length (d ! i) \<noteq> length (d ! 0)) [1..<length d] \<noteq> []
      then Inl (MisalignedRows (misaligned_msg (length (d ! 0))
                  (filter (\<lambda>i. length (d ! i) \<noteq> length (d ! 0)) [1..<length d])))
      else Inr ())"
proof -
  have "length d < 2 \<longleftrightarrow> d = [] \<or> length d = 1"
    by (cases d) auto
  then show ?thesis
    unfolding validate_def Let_def invalid_rows_eq by auto
qed

lemma offending_nonempty_iff:
  "filter (\<lambda>i. length (d ! i) \<noteq> n) [1..<length d] \<noteq> []
     \<longleftrightarrow> (\<exists>i. 1 \<le> i \<and> i < length d \<and> length (d ! i) \<noteq> n)"
  by (auto simp: filter_empty_conv)

lemma collect_all_ok:
  "(\<And>x. x \<in> set xs \<Longrightarrow> f x = Inr (g x)) \<Longrightarrow> collect f xs = Inr (map g xs)"
  by (induction xs) simp_all

lemma collect_map: "collect f (map h xs) = collect (\<lambda>x. f (h x)) xs"
  by (induction xs) (simp_all split: sum.split)

lemma collect_cells:
  assumes "length row \<le> n"
  shows "collect (\<lambda>(col_idx, cell).
                    case nth_py (map W [0..<n]) col_idx of
                      Inl e \<Rightarrow> Inl e
                    | Inr w \<Rightarrow> Inr (F cell w))
                 (enumerate 0 row)
           = Inr (map (\<lambda>j. F (row ! j) (W j)) [0..<length row])"
proof -
  have "collect (\<lambda>j. case nth_py (map W [0..<n]) j of
                        Inl e \<Rightarrow> Inl e
                      | Inr w \<Rightarrow> Inr (F (row ! j) w))
                [0..<length row]
          = Inr (map (\<lambda>j. F (row ! j) (W j)) [0..<length row])"
    using assms by (intro collect_all_ok) (simp add: nth_py_def)
  then show ?thesis
    by (simp add: enumerate_as_map collect_map)
qed

lemma zip_star_rect:
  assumes "d \<noteq> []" and "\<And>r. r \<in> set d \<Longrightarrow> length r = n"
  shows "zip_star d = map (\<lambda>i. map (\<lambda>r. r ! i) d) [0..<n]"
proof -
  from assms have "set (map length d) = {n}"
    by (cases d) auto
  with assms(1) show ?thesis
    by (simp add: zip_star_def)
qed

lemma py_max_lengths:
  assumes "d \<noteq> []"
  shows "py_max (map length (map (\<lambda>r. r ! i) d)) = Inr (spec_col_width d i)"
proof -
  from assms obtain r rs where d: "d = r # rs" by (cases d) auto
  have "Max (set (map (\<lambda>row. length (row ! i)) (r # rs)))
          = fold max (map (\<lambda>row. length (row ! i)) rs) (length (r ! i))"
    using Max.set_eq_fold [of "length (r ! i)" "map (\<lambda>row. length (row ! i)) rs"] by simp
  then show ?thesis
    by (simp add: d spec_col_width_def comp_def)
qed

lemma col_sizes_rect:
  assumes "d \<noteq> []" and "\<And>r. r \<in> set d \<Longrightarrow> length r = n"
  shows "col_sizes d = Inr (map (spec_col_width d) [0..<n])"
proof -
  have "collect (\<lambda>i. py_max (map length (map (\<lambda>r. r ! i) d))) [0..<n]
          = Inr (map (spec_col_width d) [0..<n])"
    by (rule collect_all_ok) (rule py_max_lengths [OF assms(1)])
  then show ?thesis
    by (simp add: col_sizes_def zip_star_rect [OF assms] collect_map)
qed

lemma str_table_rect:
  assumes ne: "d \<noteq> []" and rect: "\<And>r. r \<in> set d \<Longrightarrow> length r = n"
  shows "str_table d =
     Inr (''|'' @ join ''|'' (map (\<lambda>j. center (d ! 0 ! j) (spec_col_width d j + 2)) [0..<n])
            @ ''|\<newline>''
          @ ''|'' @ join ''|'' (map (\<lambda>j. replicate (spec_col_width d j + 2) CHR ''-'') [0..<n])
            @ ''|\<newline>''
          @ concat (map (\<lambda>row. ''| '' @ join '' | ''
                                   (map (\<lambda>j. ljust (row ! j) (spec_col_width d j)) [0..<n])
                                 @ '' |\<newline>'')
                        (drop 1 d)))"
proof -
  let ?sizes = "map (spec_col_width d) [0..<n]"
  have cs: "col_sizes d = Inr ?sizes"
    by (rule col_sizes_rect [OF ne rect])
  have hd0: "nth_py d 0 = Inr (d ! 0)"
    using ne by (simp add: nth_py_def)
  have len0: "length (d ! 0) = n"
    using ne rect by (cases d) auto
  have hl: "header_line ?sizes (d ! 0)
              = Inr (''|'' @ join ''|'' (map (\<lambda>j. center (d ! 0 ! j) (spec_col_width d j + 2)) [0..<n])
                       @ ''|\<newline>'')"
    unfolding header_line_def
    using collect_cells [where row = "d ! 0" and n = n and W = "spec_col_width d"
                            and F = "\<lambda>cell w. center cell (w + 2)"] len0
    by simp
  have dl: "data_line ?sizes row
              = Inr (''| '' @ join '' | '' (map (\<lambda>j. ljust (row ! j) (spec_col_width d j)) [0..<n])
                       @ '' |\<newline>'')"
    if "row \<in> set (drop 1 d)" for row
  proof -
    from that have "row \<in> set d" by (rule in_set_dropD)
    then have "length row = n" by (rule rect)
    then show ?thesis
      unfolding data_line_def
      using collect_cells [where row = row and n = n and W = "spec_col_width d" and F = ljust]
      by simp
  qed
  have rows: "collect (data_line ?sizes) (drop 1 d)
                = Inr (map (\<lambda>row. ''| '' @ join '' | ''
                                   (map (\<lambda>j. ljust (row ! j) (spec_col_width d j)) [0..<n])
                                 @ '' |\<newline>'') (drop 1 d))"
    by (rule collect_all_ok) (rule dl)
  have sep: "separator_line ?sizes
               = ''|'' @ join ''|'' (map (\<lambda>j. replicate (spec_col_width d j + 2) CHR ''-'') [0..<n])
                   @ ''|\<newline>''"
    by (simp add: separator_line_def comp_def)
  show ?thesis
    by (simp only: str_table_def cs hd0 hl rows sep sum.case append_assoc)
qed

lemma valid_rect:
  assumes "validate d = Inr ()"
  shows "d \<noteq> []" and "r \<in> set d \<Longrightarrow> length r = length (d ! 0)"
proof -
  from assms have len: "2 \<le> length d"
    and flt: "filter (\<lambda>i. length (d ! i) \<noteq> length (d ! 0)) [1..<length d] = []"
    by (simp_all add: validate_unfold [of d] split: if_splits)
  from len show "d \<noteq> []" by auto
  assume "r \<in> set d"
  then obtain i where i: "i < length d" "r = d ! i"
    by (auto simp: in_set_conv_nth)
  show "length r = length (d ! 0)"
  proof (cases "i = 0")
    case True
    with i show ?thesis by simp
  next
    case False
    with i flt show ?thesis
      by (auto simp: filter_empty_conv)
  qed
qed

lemma spec_col_width_ge:
  assumes "row \<in> set d"
  shows "length (row ! j) \<le> spec_col_width d j"
  unfolding spec_col_width_def using assms by (intro Max_ge) auto

lemma center_parity:
  assumes "length cell \<le> cw"
  shows "center cell (cw + 2) = parity_center cell cw"
proof -
  obtain p where p: "cw = length cell + p"
    using assms by (auto simp: le_iff_add)
  show ?thesis
  proof (cases "even p")
    case True
    then obtain k where "p = 2 * k" by (elim evenE)
    then show ?thesis
      by (simp add: center_def parity_center_def Let_def p)
  next
    case False
    then obtain k where "p = 2 * k + 1" by (elim oddE)
    then show ?thesis
      by (simp add: center_def parity_center_def Let_def p replicate_add [symmetric]
               del: replicate_add)
  qed
qed

lemma str_table_valid_header:
  assumes "validate d = Inr ()"
  shows "\<exists>rest. str_table d = Inr (header_row_with parity_center d @ ''\<newline>'' @ rest)"
proof -
  let ?n = "length (d ! 0)"
  have ne: "d \<noteq> []" and rect: "\<And>r. r \<in> set d \<Longrightarrow> length r = ?n"
    using valid_rect [OF assms] by blast+
  from ne have "d ! 0 \<in> set d" by simp
  then have meq: "map (\<lambda>j. center (d ! 0 ! j) (spec_col_width d j + 2)) [0..<?n]
               = map (\<lambda>j. parity_center (d ! 0 ! j) (spec_col_width d j)) [0..<?n]"
    by (intro map_cong refl center_parity spec_col_width_ge)
  note st = str_table_rect [OF ne rect, unfolded meq]
  show ?thesis
    by (simp add: st header_row_with_def)
qed

lemma collect_Inl_D:
  "collect f xs = Inl e \<Longrightarrow> \<exists>x\<in>set xs. f x = Inl e"
  by (induction xs) (auto split: sum.splits)

lemma collect_Inr_D:
  "collect f xs = Inr ys \<Longrightarrow> x \<in> set xs \<Longrightarrow> \<exists>y. f x = Inr y"
  by (induction xs arbitrary: ys) (auto split: sum.splits)

lemma dict_row_ok:
  assumes "\<And>k. k \<in> set header \<Longrightarrow> k \<in> set (dict_keys d)"
  shows "dict_row str header d = Inr (map (\<lambda>k. str (the (map_of d k))) header)"
  unfolding dict_row_def
proof (rule collect_all_ok)
  fix k assume "k \<in> set header"
  then have "k \<in> fst ` set d"
    using assms by (simp add: dict_keys_def)
  then obtain v where "map_of d k = Some v"
    by (cases "map_of d k") (auto simp: map_of_eq_None_iff)
  then show "(case dict_getitem d k of Inl e \<Rightarrow> Inl e | Inr v \<Rightarrow> Inr (str v))
               = Inr (str (the (map_of d k)))"
    by (simp add: dict_getitem_def)
qed

lemma dict_row_Inl_D:
  assumes "dict_row str header d = Inl e"
  shows "\<exists>k\<in>set header. k \<notin> set (dict_keys d) \<and> e = KeyError k"
proof -
  from collect_Inl_D [OF assms [unfolded dict_row_def]]
  obtain k where k: "k \<in> set header"
    and f: "(case dict_getitem d k of Inl e \<Rightarrow> Inl e | Inr v \<Rightarrow> Inr (str v)) = Inl e"
    by blast
  from f have "map_of d k = None \<and> e = KeyError k"
    by (auto simp: dict_getitem_def split: option.splits)
  with k show ?thesis
    by (auto simp: dict_keys_def map_of_eq_None_iff)
qed

lemma dict_row_cases:
  "(\<exists>e. dict_row str header d = Inl e) \<longleftrightarrow> (\<exists>k\<in>set header. k \<notin> set (dict_keys d))"
proof
  assume "\<exists>e. dict_row str header d = Inl e"
  then show "\<exists>k\<in>set header. k \<notin> set (dict_keys d)"
    using dict_row_Inl_D by blast
next
  assume "\<exists>k\<in>set header. k \<notin> set (dict_keys d)"
  then obtain k where k: "k \<in> set header" "k \<notin> set (dict_keys d)" by blast
  show "\<exists>e. dict_row str header d = Inl e"
  proof (cases "dict_row str header d")
    case (Inl e)
    then show ?thesis by blast
  next
    case (Inr row)
    from collect_Inr_D [OF Inr [unfolded dict_row_def] k(1)]
    obtain y where "(case dict_getitem d k of Inl e \<Rightarrow> Inl e | Inr v \<Rightarrow> Inr (str v)) = Inr y"
      by blast
    moreover have "map_of d k = None"
      using k(2) by (simp add: dict_keys_def map_of_eq_None_iff)
    ultimately show ?thesis
      by (simp add: dict_getitem_def)
  qed
qed

lemma from_dicts_loop_started:
  "acc \<noteq> [] \<Longrightarrow>
   from_dicts_loop str ds acc =
     (case collect (dict_row str (acc ! 0)) ds of
        Inl e \<Rightarrow> Inl e
      | Inr rows \<Rightarrow> Inr (acc @ rows))"
proof (induction ds arbitrary: acc)
  case Nil
  then show ?case by simp
next
  case (Cons d ds)
  show ?case
  proof (cases "dict_row str (acc ! 0) d")
    case (Inl e)
    with Cons.prems show ?thesis by simp
  next
    case (Inr row)
    have "(acc @ [row]) ! 0 = acc ! 0"
      using Cons.prems by (simp add: nth_append)
    with Cons.IH [of "acc @ [row]"] Inr Cons.prems show ?thesis
      by (simp split: sum.splits)
  qed
qed

lemma from_dicts_Cons:
  "from_dicts str (d # ds) =
     (case collect (dict_row str (dict_keys d)) ds of
        Inl e \<Rightarrow> Inl e
      | Inr rows \<Rightarrow>
          Inr (dict_keys d # map (\<lambda>k. str (the (map_of d k))) (dict_keys d) # rows))"
proof -
  have "dict_row str (dict_keys d) d = Inr (map (\<lambda>k. str (the (map_of d k))) (dict_keys d))"
    by (rule dict_row_ok)
  then show ?thesis
    by (simp add: from_dicts_def from_dicts_loop_started split: sum.splits)
qed

lemma validate_header_rows:
  assumes "rows \<noteq> []"
  shows "(\<exists>m. validate (hdr # rows) = Inl (MisalignedRows m))
           \<longleftrightarrow> (\<exists>row\<in>set rows. length row \<noteq> length hdr)"
proof -
  have "(\<exists>i. 1 \<le> i \<and> i < length (hdr # rows) \<and> length ((hdr # rows) ! i) \<noteq> length hdr)
          \<longleftrightarrow> (\<exists>row\<in>set rows. length row \<noteq> length hdr)"
  proof
    assume "\<exists>i. 1 \<le> i \<and> i < length (hdr # rows) \<and> length ((hdr # rows) ! i) \<noteq> length hdr"
    then obtain i where i: "1 \<le> i" "i < length (hdr # rows)"
      "length ((hdr # rows) ! i) \<noteq> length hdr" by blast
    then obtain j where j: "i = Suc j" by (cases i) auto
    with i have "rows ! j \<in> set rows" "length (rows ! j) \<noteq> length hdr" by auto
    then show "\<exists>row\<in>set rows. length row \<noteq> length hdr" by blast
  next
    assume "\<exists>row\<in>set rows. length row \<noteq> length hdr"
    then obtain j where "j < length rows" "length (rows ! j) \<noteq> length hdr"
      by (auto simp: in_set_conv_nth)
    then have "1 \<le> Suc j \<and> Suc j < length (hdr # rows)
                 \<and> length ((hdr # rows) ! Suc j) \<noteq> length hdr"
      by simp
    then show "\<exists>i. 1 \<le> i \<and> i < length (hdr # rows) \<and> length ((hdr # rows) ! i) \<noteq> length hdr"
      by blast
  qed
  moreover have "\<not> length (hdr # rows) < 2"
    using assms by (cases rows) auto
  ultimately show ?thesis
    using offending_nonempty_iff [of "hdr # rows" "length hdr"]
    by (simp add: validate_unfold [of "hdr # rows"])
qed

lemma from_namedtuples_loop_started:
  "acc \<noteq> [] \<Longrightarrow>
   from_namedtuples_loop str nts acc = acc @ map (\<lambda>r. map str (nt_iter r)) nts"
  by (induction nts arbitrary: acc) simp_all

lemma from_namedtuples_Cons:
  "from_namedtuples str (nt # nts) = nt_fields nt # map (\<lambda>r. map str (nt_iter r)) (nt # nts)"
  by (simp add: from_namedtuples_def from_namedtuples_loop_started)

lemma from_serializable_loop_started:
  "acc \<noteq> [] \<Longrightarrow> from_serializable_loop szs acc = acc @ map sz_serialize szs"
  by (induction szs arbitrary: acc) simp_all

lemma from_serializable_Cons:
  "from_serializable (sz # szs) = sz_fields sz # map sz_serialize (sz # szs)"
  by (simp add: from_serializable_def from_serializable_loop_started)













lemma digit_char_inj:
  assumes "m < 10" "n < 10" "digit_char m = digit_char n"
  shows "m = n"
proof -
  have d: "distinct ''0123456789''" by simp
  from assms show ?thesis
    unfolding digit_char_def using nth_eq_iff_index_eq [OF d, of m n] by simp
qed

lemma digit_char_digit:
  "n < 10 \<Longrightarrow> digit_char n \<in> set ''0123456789''"
  unfolding digit_char_def by (rule nth_mem) simp

lemma str_nat_digits:
  "set (str_nat n) \<subseteq> set ''0123456789''"
proof (induction n rule: str_nat.induct)
  case (1 n)
  show ?case
  proof (cases "n < 10")
    case True
    with digit_char_digit [of n] show ?thesis
      by (subst str_nat.simps) (simp del: str_nat.simps)
  next
    case False
    have "n mod 10 < 10" by simp
    from digit_char_digit [OF this] 1 False show ?thesis
      by (subst str_nat.simps) (simp del: str_nat.simps)
  qed
qed

lemma str_nat_nonempty: "str_nat n \<noteq> []"
  by (subst str_nat.simps) (simp del: str_nat.simps)

lemma str_nat_inj: "str_nat m = str_nat n \<Longrightarrow> m = n"
proof (induction m arbitrary: n rule: str_nat.induct)
  case (1 m)
  show ?case
  proof (cases "m < 10")
    case m: True
    show ?thesis
    proof (cases "n < 10")
      case True
      with m "1.prems" show ?thesis
        by (subst (asm) (1 2) str_nat.simps) (simp add: digit_char_inj del: str_nat.simps)
    next
      case False
      with m "1.prems" str_nat_nonempty [of "n div 10"] show ?thesis
        by (subst (asm) (1 2) str_nat.simps) (simp del: str_nat.simps)
    qed
  next
    case m: False
    show ?thesis
    proof (cases "n < 10")
      case True
      with m "1.prems" str_nat_nonempty [of "m div 10"] show ?thesis
        by (subst (asm) (1 2) str_nat.simps) (simp del: str_nat.simps)
    next
      case False
      with m "1.prems" have a: "str_nat (m div 10) = str_nat (n div 10)"
        and b: "digit_char (m mod 10) = digit_char (n mod 10)"
        by (subst (asm) (1 2) str_nat.simps, simp del: str_nat.simps)+
      from "1.IH" [OF m a] have "m div 10 = n div 10" .
      moreover from b have "m mod 10 = n mod 10"
        by (intro digit_char_inj) simp_all
      ultimately show ?thesis
        by (metis div_mult_mod_eq)
    qed
  qed
qed

lemma takeWhile_stop:
  assumes "\<And>c. c \<in> set x \<Longrightarrow> P c" and "r = [] \<or> \<not> P (hd r)"
  shows "takeWhile P (x @ r) = x"
proof (cases r)
  case Nil
  with assms(1) show ?thesis by (simp add: takeWhile_eq_all_conv)
next
  case (Cons c cs)
  with assms(2) have "\<not> P c" by simp
  with Cons assms(1) show ?thesis
    by (simp add: takeWhile_append2)
qed

lemma digits_split:
  assumes a: "set a \<subseteq> set ''0123456789''" and b: "set b \<subseteq> set ''0123456789''"
    and r1: "r1 = [] \<or> hd r1 = CHR '',''" and r2: "r2 = [] \<or> hd r2 = CHR '',''"
    and eq: "a @ r1 = b @ r2"
  shows "a = b \<and> r1 = r2"
proof -
  define D where "D = set ''0123456789''"
  have comma: "CHR '','' \<notin> D"
    by (simp add: D_def)
  have a': "c \<in> D" if "c \<in> set a" for c
    using that a unfolding D_def by (rule subsetD [rotated])
  have b': "c \<in> D" if "c \<in> set b" for c
    using that b unfolding D_def by (rule subsetD [rotated])
  have s1: "r1 = [] \<or> \<not> hd r1 \<in> D"
    using r1 comma by metis
  have s2: "r2 = [] \<or> \<not> hd r2 \<in> D"
    using r2 comma by metis
  have "takeWhile (\<lambda>c. c \<in> D) (a @ r1) = a"
    using a' s1 by (rule takeWhile_stop)
  moreover have "takeWhile (\<lambda>c. c \<in> D) (b @ r2) = b"
    using b' s2 by (rule takeWhile_stop)
  ultimately have "a = b"
    using eq by (simp only:)
  with eq show ?thesis
    by (simp only: same_append_eq simp_thms)
qed

lemma join_Cons:
  "join sep (x # xs) = x @ (if xs = [] then [] else sep @ join sep xs)"
  by (cases xs) simp_all

lemma join_str_nat_inj:
  "join '', '' (map str_nat xs) = join '', '' (map str_nat ys) \<Longrightarrow> xs = ys"
proof (induction xs arbitrary: ys)
  case Nil
  then show ?case
    using str_nat_nonempty by (cases ys) (auto simp: join_Cons simp del: str_nat.simps)
next
  case (Cons x xs)
  show ?case
  proof (cases ys)
    case Nil
    with Cons.prems str_nat_nonempty show ?thesis
      by (auto simp: join_Cons simp del: str_nat.simps)
  next
    case ys: (Cons y ys')
    let ?r1 = "if map str_nat xs = [] then [] else '', '' @ join '', '' (map str_nat xs)"
    let ?r2 = "if map str_nat ys' = [] then [] else '', '' @ join '', '' (map str_nat ys')"
    from Cons.prems ys have "str_nat x @ ?r1 = str_nat y @ ?r2"
      by (simp only: list.map join_Cons)
    from digits_split [OF str_nat_digits str_nat_digits _ _ this]
    have xy: "str_nat x = str_nat y" and r: "?r1 = ?r2"
      by (simp_all del: str_nat.simps)
    from r have "join '', '' (map str_nat xs) = join '', '' (map str_nat ys')"
      by (cases xs; cases ys') (simp_all del: str_nat.simps split: if_splits)
    from Cons.IH [OF this] str_nat_inj [OF xy] ys show ?thesis
      by (simp del: str_nat.simps)
  qed
qed

lemma misaligned_msg_inj:
  "misaligned_msg n xs = misaligned_msg n ys \<Longrightarrow> xs = ys"
  by (simp add: misaligned_msg_def join_str_nat_inj del: str_nat.simps)

section \<open>The claims\<close>

text \<open>
  C1. \<open>validate\<close> raises \<open>NoData\<close> exactly on the tables with fewer than two rows. It raises
  \<open>MisalignedRows\<close> exactly on the tables with at least two rows of which some row after
  the header has another number of cells than the header, and its message then lists, in
  increasing order, every index \<open>i\<close> from 1 on (the header being row 0) whose row has
  another number of cells than the header; no other list of indices has that message. On
  every other table it returns normally.
\<close>

theorem validate_outcome:
  "validate d =
     (if length d < 2
      then Inl (NoData (if d = [] then ''missing header row'' else ''only the header is present''))
      else if (\<exists>i. 1 \<le> i \<and> i < length d \<and> length (d ! i) \<noteq> length (d ! 0))
      then Inl (MisalignedRows (misaligned_msg (length (d ! 0))
                  (filter (\<lambda>i. length (d ! i) \<noteq> length (d ! 0)) [1..<length d])))
      else Inr ())
   \<and> ((\<exists>m. validate d = Inl (NoData m)) \<longleftrightarrow> length d < 2)
   \<and> ((\<exists>m. validate d = Inl (MisalignedRows m))
        \<longleftrightarrow> 2 \<le> length d \<and> (\<exists>i. 1 \<le> i \<and> i < length d \<and> length (d ! i) \<noteq> length (d ! 0)))
   \<and> (validate d = Inr ()
        \<longleftrightarrow> 2 \<le> length d \<and> (\<forall>i. 1 \<le> i \<and> i < length d \<longrightarrow> length (d ! i) = length (d ! 0)))
   \<and> (\<forall>reported. validate d = Inl (MisalignedRows (misaligned_msg (length (d ! 0)) reported))
          \<longrightarrow> reported = filter (\<lambda>i. length (d ! i) \<noteq> length (d ! 0)) [1..<length d])"
proof -
  let ?bad = "\<exists>i. 1 \<le> i \<and> i < length d \<and> length (d ! i) \<noteq> length (d ! 0)"
  let ?rows = "filter (\<lambda>i. length (d ! i) \<noteq> length (d ! 0)) [1..<length d]"
  have u: "validate d =
     (if length d < 2
      then Inl (NoData (if d = [] then ''missing header row'' else ''only the header is present''))
      else if ?bad
      then Inl (MisalignedRows (misaligned_msg (length (d ! 0)) ?rows))
      else Inr ())"
    by (simp only: validate_unfold [of d] offending_nonempty_iff [of d "length (d ! 0)"])
  have rep: "reported = ?rows"
    if "validate d = Inl (MisalignedRows (misaligned_msg (length (d ! 0)) reported))" for reported
  proof -
    from that u have "misaligned_msg (length (d ! 0)) reported = misaligned_msg (length (d ! 0)) ?rows"
      by (simp split: if_splits)
    then show ?thesis by (rule misaligned_msg_inj)
  qed
  have main: "((\<exists>m. validate d = Inl (NoData m)) \<longleftrightarrow> length d < 2)
   \<and> ((\<exists>m. validate d = Inl (MisalignedRows m)) \<longleftrightarrow> 2 \<le> length d \<and> ?bad)
   \<and> (validate d = Inr ()
        \<longleftrightarrow> 2 \<le> length d \<and> (\<forall>i. 1 \<le> i \<and> i < length d \<longrightarrow> length (d ! i) = length (d ! 0)))"
  proof (cases "length d < 2")
    case True
    with u show ?thesis by simp
  next
    case False
    show ?thesis
    proof (cases ?bad)
      case True
      with u False show ?thesis by auto
    next
      case nb: False
      with u False have "validate d = Inr ()" by simp
      with u False nb show ?thesis by auto
    qed
  qed
  from rep have rep': "\<forall>reported. validate d = Inl (MisalignedRows (misaligned_msg (length (d ! 0)) reported))
          \<longrightarrow> reported = ?rows"
    by blast
  from u main rep' show ?thesis
    by (intro conjI) (elim conjE, assumption)+
qed

theorem validate_outcome_witness:
  "validate [[''a'', ''b''], [''c''], [''d'', ''e''], []]
     = Inl (MisalignedRows ''expected 2 cells, violated by rows 1, 3'')
   \<and> validate [[''a'', ''b''], [''c'', ''d'']] = Inr ()
   \<and> validate [[''a'', ''b'']] = Inl (NoData ''only the header is present'')"
proof -
  have a: "validate [[''a'', ''b''], [''c''], [''d'', ''e''], []]
             = Inl (MisalignedRows ''expected 2 cells, violated by rows 1, 3'')"
    by code_simp
  have "\<forall>i. 1 \<le> i \<and> i < length [[''a'', ''b''], [''c'', ''d'']]
          \<longrightarrow> length ([[''a'', ''b''], [''c'', ''d'']] ! i) = length ([[''a'', ''b''], [''c'', ''d'']] ! 0)"
    by (auto simp: nth_Cons' less_Suc_eq)
  with validate_outcome [of "[[''a'', ''b''], [''c'', ''d'']]"]
  have b: "validate [[''a'', ''b''], [''c'', ''d'']] = Inr ()"
    by simp
  have c: "validate [[''a'', ''b'']] = Inl (NoData ''only the header is present'')"
    using validate_outcome [of "[[''a'', ''b'']]"] by simp
  from a b c show ?thesis by blast
qed

text \<open>
  C2. The table \<open>[["foo","bar"],["spam","eggs"],["hello","world"]]\<close> renders to the four
  lines of the example, each ended by a newline.
\<close>

theorem str_table_example:
  "str_table [[''foo'', ''bar''], [''spam'', ''eggs''], [''hello'', ''world'']]
     = Inr ''|  foo  |  bar  |\<newline>|-------|-------|\<newline>| spam  | eggs  |\<newline>| hello | world |\<newline>''"
  by code_simp

text \<open>
  C3, as the code has it. On every valid table the text begins with the header row in which
  each header cell is centred in the column width plus two: the padding is split evenly,
  and when it is odd the one extra space is on the right for a column of even width and on
  the left for a column of odd width (\<open>parity_center\<close>).
\<close>

theorem header_centering:
  "validate d = Inr () \<Longrightarrow> renders_header (header_row_with parity_center d) d"
  using str_table_valid_header [of d] by (auto simp: renders_header_def)

theorem header_centering_witness:
  "validate [[''a'', ''ab''], [''abcd'', ''abc'']] = Inr ()
   \<and> renders_header (header_row_with parity_center [[''a'', ''ab''], [''abcd'', ''abc'']])
        [[''a'', ''ab''], [''abcd'', ''abc'']]
   \<and> header_row_with parity_center [[''a'', ''ab''], [''abcd'', ''abc'']] = ''|  a   |  ab |''"
proof -
  have v: "validate [[''a'', ''ab''], [''abcd'', ''abc'']] = Inr ()"
    by code_simp
  have r: "header_row_with parity_center [[''a'', ''ab''], [''abcd'', ''abc'']] = ''|  a   |  ab |''"
    by code_simp
  from v r header_centering [OF v] show ?thesis by simp
qed

text \<open>
  C3 as stated fails: with the extra space always on the right, the header row of the valid
  table \<open>[["ab"],["abc"]]\<close> would be \<open>| ab  |\<close>, and the code renders \<open>|  ab |\<close>.
\<close>

theorem header_centering_counterexample:
  "validate [[''ab''], [''abc'']] = Inr ()
   \<and> str_table [[''ab''], [''abc'']] = Inr ''|  ab |\<newline>|-----|\<newline>| abc |\<newline>''
   \<and> header_row_with spec_center [[''ab''], [''abc'']] = ''| ab  |''
   \<and> \<not> renders_header (header_row_with spec_center [[''ab''], [''abc'']]) [[''ab''], [''abc'']]"
  by code_simp

text \<open>
  C7. When \<open>validate\<close> raises, \<open>print\<close> raises the same exception and the sink is as it
  was. When \<open>validate\<close> returns, the rendering succeeds and \<open>print\<close> appends the rendered
  text and then \<open>end\<close> to the sink; with the default \<open>end\<close> that is the rendered text alone.
\<close>

theorem print_validates_first:
  "(validate d = Inl e \<longrightarrow> print_table d end_str file = (Inl e, file))
   \<and> (validate d = Inr ()
        \<longrightarrow> (\<exists>s. str_table d = Inr s
                   \<and> print_table d end_str file = (Inr (), file @ s @ end_str)
                   \<and> print_table d default_end file = (Inr (), file @ s)))"
proof (intro conjI impI)
  assume "validate d = Inl e"
  then show "print_table d end_str file = (Inl e, file)"
    by (simp add: print_table_def)
next
  assume v: "validate d = Inr ()"
  from str_table_valid_header [OF v] obtain s where s: "str_table d = Inr s"
    by blast
  with v show "\<exists>s. str_table d = Inr s
                   \<and> print_table d end_str file = (Inr (), file @ s @ end_str)
                   \<and> print_table d default_end file = (Inr (), file @ s)"
    by (simp add: print_table_def default_end_def)
qed

theorem print_validates_first_witness:
  "print_table [[''ab'', ''c''], [''abc'']] default_end ''>''
     = (Inl (MisalignedRows ''expected 2 cells, violated by rows 1''), ''>'')
   \<and> str_table [[''ab'', ''c''], [''abc'']] = Inl IndexError
   \<and> print_table [[''x'', ''yy''], [''1'', ''2'']] default_end ''>''
       = (Inr (), ''>| x | yy |\<newline>|---|----|\<newline>| 1 | 2  |\<newline>'')"
proof -
  have a: "validate [[''ab'', ''c''], [''abc'']]
             = Inl (MisalignedRows ''expected 2 cells, violated by rows 1'')"
    by code_simp
  have b: "str_table [[''ab'', ''c''], [''abc'']] = Inl IndexError"
    by code_simp
  have c: "validate [[''x'', ''yy''], [''1'', ''2'']] = Inr ()"
    by code_simp
  have d: "str_table [[''x'', ''yy''], [''1'', ''2'']]
             = Inr ''| x | yy |\<newline>|---|----|\<newline>| 1 | 2  |\<newline>''"
    by code_simp
  from a print_validates_first [of "[[''ab'', ''c''], [''abc'']]"
         "MisalignedRows ''expected 2 cells, violated by rows 1''" default_end "''>''"]
  have 1: "print_table [[''ab'', ''c''], [''abc'']] default_end ''>''
             = (Inl (MisalignedRows ''expected 2 cells, violated by rows 1''), ''>'')"
    by blast
  from c d print_validates_first [of "[[''x'', ''yy''], [''1'', ''2'']]" IndexError default_end "''>''"]
  have 2: "print_table [[''x'', ''yy''], [''1'', ''2'']] default_end ''>''
             = (Inr (), ''>| x | yy |\<newline>|---|----|\<newline>| 1 | 2  |\<newline>'')"
    by auto
  from 1 b 2 show ?thesis by blast
qed

text \<open>
  C9. A table of one row renders to its header line and its separator line, each ended by
  a newline: every header cell between two spaces, and as many dashes as the cell is long
  plus two. \<open>validate\<close> raises \<open>NoData\<close> on the same table.
\<close>

theorem render_header_only:
  "str_table [h] =
     Inr (''|'' @ join ''|'' (map (\<lambda>c. '' '' @ c @ '' '') h) @ ''|\<newline>''
          @ ''|'' @ join ''|'' (map (\<lambda>c. replicate (length c + 2) CHR ''-'') h) @ ''|\<newline>'')
   \<and> validate [h] = Inl (NoData ''only the header is present'')"
proof -
  have w: "spec_col_width [h] j = length (h ! j)" for j
    by (simp add: spec_col_width_def)
  have c: "center c (Suc (Suc (length c))) = '' '' @ c @ '' ''" for c
    by (simp add: center_def)
  have m: "map (\<lambda>j. f (h ! j)) [0..<length h] = map f h" for f :: "string \<Rightarrow> string"
    by (rule nth_equalityI) simp_all
  have "str_table [h] =
     Inr (''|'' @ join ''|'' (map (\<lambda>j. (\<lambda>c. '' '' @ c @ '' '') (h ! j)) [0..<length h]) @ ''|\<newline>''
          @ ''|'' @ join ''|'' (map (\<lambda>j. (\<lambda>c. replicate (length c + 2) CHR ''-'') (h ! j)) [0..<length h]) @ ''|\<newline>'')"
    using str_table_rect [of "[h]" "length h"] by (simp add: w c)
  then have "str_table [h] =
     Inr (''|'' @ join ''|'' (map (\<lambda>c. '' '' @ c @ '' '') h) @ ''|\<newline>''
          @ ''|'' @ join ''|'' (map (\<lambda>c. replicate (length c + 2) CHR ''-'') h) @ ''|\<newline>'')"
    unfolding m [of "\<lambda>c. '' '' @ c @ '' ''"] m [of "\<lambda>c. replicate (length c + 2) CHR ''-''"] .
  moreover have "validate [h] = Inl (NoData ''only the header is present'')"
    by (simp add: validate_def)
  ultimately show ?thesis by blast
qed

text \<open>
  C10. Two tables whose rows have the same lengths, row by row, validate alike: the same
  outcome, the same exception and the same message.
\<close>

theorem validate_shape_only:
  "map length d1 = map length d2 \<Longrightarrow> validate d1 = validate d2"
proof -
  assume eq: "map length d1 = map length d2"
  then have len: "length d1 = length d2"
    by (rule map_eq_imp_length_eq)
  have nth: "length (d1 ! i) = length (d2 ! i)" if "i < length d1" for i
    using that len nth_map [of i d1 length] nth_map [of i d2 length] eq by simp
  have emp: "d1 = [] \<longleftrightarrow> d2 = []"
    using len by auto
  show ?thesis
  proof (cases "length d1 < 2")
    case True
    with len emp show ?thesis
      by (simp add: validate_unfold [of d1] validate_unfold [of d2])
  next
    case False
    then have "0 < length d1"
      by linarith
    then have h0: "length (d1 ! 0) = length (d2 ! 0)"
      by (rule nth)
    have "filter (\<lambda>i. length (d1 ! i) \<noteq> length (d1 ! 0)) [1..<length d1]
            = filter (\<lambda>i. length (d2 ! i) \<noteq> length (d2 ! 0)) [1..<length d2]"
      unfolding len [symmetric] h0 [symmetric]
      by (rule filter_cong) (simp_all add: nth)
    with False len h0 show ?thesis
      by (simp add: validate_unfold [of d1] validate_unfold [of d2])
  qed
qed

theorem validate_shape_only_witness:
  "validate [[''a'', ''b''], [''c''], [''d'', ''e'']] = validate [[''x'', []], [''yyy''], [''z'', ''w'']]
   \<and> validate [[''a'', ''b''], [''c''], [''d'', ''e'']]
       = Inl (MisalignedRows ''expected 2 cells, violated by rows 1'')"
proof -
  have "map length [[''a'', ''b''], [''c''], [''d'', ''e'']]
          = map length [[''x'', []], [''yyy''], [''z'', ''w'']]"
    by simp
  from validate_shape_only [OF this]
  have 1: "validate [[''a'', ''b''], [''c''], [''d'', ''e'']]
             = validate [[''x'', []], [''yyy''], [''z'', ''w'']]" .
  have 2: "validate [[''a'', ''b''], [''c''], [''d'', ''e'']]
             = Inl (MisalignedRows ''expected 2 cells, violated by rows 1'')"
    by code_simp
  from 1 2 show ?thesis by blast
qed

text \<open>
  C8. \<open>from_dicts\<close> of no mapping returns the table without rows, on which \<open>validate\<close>
  raises \<open>NoData\<close>.
\<close>

theorem from_dicts_empty:
  "from_dicts str [] = Inr [] \<and> validate [] = Inl (NoData ''missing header row'')"
  by (simp add: from_dicts_def validate_def)

text \<open>
  C5. For a non-empty list of mappings, the header is the list of keys of the first one.
  \<open>from_dicts\<close> raises exactly when a later mapping lacks a key of the header, and what it
  raises is the \<open>KeyError\<close> of such a key; it is the builder that raises, \<open>validate\<close> is
  not involved. Otherwise the table is the header followed by one row per mapping, the
  first included, holding the texts of the values found under the header keys in header
  order; keys outside the header play no part.
\<close>

theorem from_dicts_outcome:
  "((\<exists>e. from_dicts str (d # ds) = Inl e)
      \<longleftrightarrow> (\<exists>m\<in>set ds. \<exists>k\<in>set (dict_keys d). k \<notin> set (dict_keys m)))
   \<and> (\<forall>e. from_dicts str (d # ds) = Inl e
          \<longrightarrow> (\<exists>k\<in>set (dict_keys d). e = KeyError k \<and> (\<exists>m\<in>set ds. k \<notin> set (dict_keys m))))
   \<and> ((\<forall>m\<in>set ds. \<forall>k\<in>set (dict_keys d). k \<in> set (dict_keys m))
        \<longrightarrow> from_dicts str (d # ds)
              = Inr (dict_keys d
                     # map (\<lambda>m. map (\<lambda>k. str (the (map_of m k))) (dict_keys d)) (d # ds)))"
proof -
  let ?hdr = "dict_keys d"
  have fail: "\<exists>k\<in>set ?hdr. e = KeyError k \<and> (\<exists>m\<in>set ds. k \<notin> set (dict_keys m))"
    if "from_dicts str (d # ds) = Inl e" for e
  proof -
    from that have "collect (dict_row str ?hdr) ds = Inl e"
      by (simp add: from_dicts_Cons split: sum.splits)
    from collect_Inl_D [OF this] obtain m where "m \<in> set ds" "dict_row str ?hdr m = Inl e"
      by blast
    with dict_row_Inl_D [of str ?hdr m e] show ?thesis by blast
  qed
  have ok: "from_dicts str (d # ds)
              = Inr (?hdr # map (\<lambda>m. map (\<lambda>k. str (the (map_of m k))) ?hdr) (d # ds))"
    if "\<forall>m\<in>set ds. \<forall>k\<in>set ?hdr. k \<in> set (dict_keys m)"
  proof -
    have "collect (dict_row str ?hdr) ds
            = Inr (map (\<lambda>m. map (\<lambda>k. str (the (map_of m k))) ?hdr) ds)"
      using that by (intro collect_all_ok dict_row_ok) blast
    then show ?thesis
      by (simp add: from_dicts_Cons)
  qed
  have iff: "(\<exists>e. from_dicts str (d # ds) = Inl e)
      \<longleftrightarrow> (\<exists>m\<in>set ds. \<exists>k\<in>set ?hdr. k \<notin> set (dict_keys m))"
  proof
    assume "\<exists>e. from_dicts str (d # ds) = Inl e"
    then show "\<exists>m\<in>set ds. \<exists>k\<in>set ?hdr. k \<notin> set (dict_keys m)"
      using fail by blast
  next
    assume "\<exists>m\<in>set ds. \<exists>k\<in>set ?hdr. k \<notin> set (dict_keys m)"
    then obtain m where m: "m \<in> set ds" "\<exists>k\<in>set ?hdr. k \<notin> set (dict_keys m)"
      by blast
    then obtain e where e: "dict_row str ?hdr m = Inl e"
      using dict_row_cases [of str ?hdr m] by blast
    show "\<exists>e. from_dicts str (d # ds) = Inl e"
    proof (cases "collect (dict_row str ?hdr) ds")
      case (Inl e')
      then show ?thesis by (simp add: from_dicts_Cons)
    next
      case (Inr rows)
      from collect_Inr_D [OF Inr m(1)] e show ?thesis by simp
    qed
  qed
  from iff fail ok show ?thesis by blast
qed

theorem from_dicts_outcome_witness:
  "from_dicts str_nat [[(''constant'', 1), (''value'', 2)], [(''constant'', 3)]]
     = Inl (KeyError ''value'')
   \<and> from_dicts str_nat [[(''a'', 1), (''b'', 2)], [(''b'', 3), (''c'', 7), (''a'', 4)]]
       = Inr [[''a'', ''b''], [''1'', ''2''], [''4'', ''3'']]"
proof -
  have a: "from_dicts str_nat [[(''constant'', 1), (''value'', 2)], [(''constant'', 3)]]
             = Inl (KeyError ''value'')"
    by code_simp
  have "\<forall>m\<in>set [[(''b'', 3::nat), (''c'', 7), (''a'', 4)]].
          \<forall>k\<in>set (dict_keys [(''a'', 1::nat), (''b'', 2)]). k \<in> set (dict_keys m)"
    by (simp add: dict_keys_def)
  with from_dicts_outcome [of str_nat "[(''a'', 1), (''b'', 2)]" "[[(''b'', 3), (''c'', 7), (''a'', 4)]]"]
  have "from_dicts str_nat [[(''a'', 1), (''b'', 2)], [(''b'', 3), (''c'', 7), (''a'', 4)]]
          = Inr (dict_keys [(''a'', 1::nat), (''b'', 2)]
                 # map (\<lambda>m. map (\<lambda>k. str_nat (the (map_of m k))) (dict_keys [(''a'', 1::nat), (''b'', 2)]))
                     ([(''a'', 1), (''b'', 2)] # [[(''b'', 3), (''c'', 7), (''a'', 4)]]))"
    by blast
  then have b: "from_dicts str_nat [[(''a'', 1), (''b'', 2)], [(''b'', 3), (''c'', 7), (''a'', 4)]]
       = Inr [[''a'', ''b''], [''1'', ''2''], [''4'', ''3'']]"
    by (simp add: dict_keys_def digit_char_def)
  from a b show ?thesis by blast
qed

text \<open>
  C6, as the code has it. On a non-empty list of records both builders return the fields of
  the first record followed by one row per record, whatever the shapes of the records are.
  \<open>validate\<close> raises \<open>MisalignedRows\<close> on that table exactly when some record yields
  another number of cells than the first record has fields. So it does whenever two
  records yield different numbers of cells, and whenever two records have different
  numbers of fields while every record yields as many cells as it has fields.
\<close>

theorem record_builders_defer_to_validate:
  "from_namedtuples str (nt # nts) = nt_fields nt # map (\<lambda>r. map str (nt_iter r)) (nt # nts)
   \<and> from_serializable (sz # szs) = sz_fields sz # map sz_serialize (sz # szs)
   \<and> ((\<exists>m. validate (from_namedtuples str (nt # nts)) = Inl (MisalignedRows m))
        \<longleftrightarrow> (\<exists>r\<in>set (nt # nts). length (nt_iter r) \<noteq> length (nt_fields nt)))
   \<and> ((\<exists>m. validate (from_serializable (sz # szs)) = Inl (MisalignedRows m))
        \<longleftrightarrow> (\<exists>r\<in>set (sz # szs). length (sz_serialize r) \<noteq> length (sz_fields sz)))
   \<and> ((\<exists>a\<in>set (nt # nts). \<exists>b\<in>set (nt # nts). length (nt_iter a) \<noteq> length (nt_iter b))
        \<longrightarrow> (\<exists>m. validate (from_namedtuples str (nt # nts)) = Inl (MisalignedRows m)))
   \<and> ((\<exists>a\<in>set (sz # szs). \<exists>b\<in>set (sz # szs). length (sz_serialize a) \<noteq> length (sz_serialize b))
        \<longrightarrow> (\<exists>m. validate (from_serializable (sz # szs)) = Inl (MisalignedRows m)))
   \<and> ((\<forall>r\<in>set (nt # nts). length (nt_iter r) = length (nt_fields r))
        \<and> (\<exists>a\<in>set (nt # nts). \<exists>b\<in>set (nt # nts). length (nt_fields a) \<noteq> length (nt_fields b))
        \<longrightarrow> (\<exists>m. validate (from_namedtuples str (nt # nts)) = Inl (MisalignedRows m)))
   \<and> ((\<forall>r\<in>set (sz # szs). length (sz_serialize r) = length (sz_fields r))
        \<and> (\<exists>a\<in>set (sz # szs). \<exists>b\<in>set (sz # szs). length (sz_fields a) \<noteq> length (sz_fields b))
        \<longrightarrow> (\<exists>m. validate (from_serializable (sz # szs)) = Inl (MisalignedRows m)))"
proof -
  have n: "(\<exists>m. validate (from_namedtuples str (nt # nts)) = Inl (MisalignedRows m))
        \<longleftrightarrow> (\<exists>r\<in>set (nt # nts). length (nt_iter r) \<noteq> length (nt_fields nt))"
    unfolding from_namedtuples_Cons
    using validate_header_rows [of "map (\<lambda>r. map str (nt_iter r)) (nt # nts)" "nt_fields nt"]
    by simp
  have s: "(\<exists>m. validate (from_serializable (sz # szs)) = Inl (MisalignedRows m))
        \<longleftrightarrow> (\<exists>r\<in>set (sz # szs). length (sz_serialize r) \<noteq> length (sz_fields sz))"
    unfolding from_serializable_Cons
    using validate_header_rows [of "map sz_serialize (sz # szs)" "sz_fields sz"]
    by simp
  have n2: "\<exists>r\<in>set (nt # nts). length (nt_iter r) \<noteq> length (nt_fields nt)"
    if "\<exists>a\<in>set (nt # nts). \<exists>b\<in>set (nt # nts). length (nt_iter a) \<noteq> length (nt_iter b)"
    using that by metis
  have s2: "\<exists>r\<in>set (sz # szs). length (sz_serialize r) \<noteq> length (sz_fields sz)"
    if "\<exists>a\<in>set (sz # szs). \<exists>b\<in>set (sz # szs). length (sz_serialize a) \<noteq> length (sz_serialize b)"
    using that by metis
  have n3: "\<exists>r\<in>set (nt # nts). length (nt_iter r) \<noteq> length (nt_fields nt)"
    if "\<forall>r\<in>set (nt # nts). length (nt_iter r) = length (nt_fields r)"
      and "\<exists>a\<in>set (nt # nts). \<exists>b\<in>set (nt # nts). length (nt_fields a) \<noteq> length (nt_fields b)"
    using that by metis
  have s3: "\<exists>r\<in>set (sz # szs). length (sz_serialize r) \<noteq> length (sz_fields sz)"
    if "\<forall>r\<in>set (sz # szs). length (sz_serialize r) = length (sz_fields r)"
      and "\<exists>a\<in>set (sz # szs). \<exists>b\<in>set (sz # szs). length (sz_fields a) \<noteq> length (sz_fields b)"
    using that by metis
  have c1: "(\<exists>a\<in>set (nt # nts). \<exists>b\<in>set (nt # nts). length (nt_iter a) \<noteq> length (nt_iter b))
        \<longrightarrow> (\<exists>m. validate (from_namedtuples str (nt # nts)) = Inl (MisalignedRows m))"
    using n n2 by blast
  have c2: "(\<exists>a\<in>set (sz # szs). \<exists>b\<in>set (sz # szs). length (sz_serialize a) \<noteq> length (sz_serialize b))
        \<longrightarrow> (\<exists>m. validate (from_serializable (sz # szs)) = Inl (MisalignedRows m))"
    using s s2 by blast
  have c3: "(\<forall>r\<in>set (nt # nts). length (nt_iter r) = length (nt_fields r))
        \<and> (\<exists>a\<in>set (nt # nts). \<exists>b\<in>set (nt # nts). length (nt_fields a) \<noteq> length (nt_fields b))
        \<longrightarrow> (\<exists>m. validate (from_namedtuples str (nt # nts)) = Inl (MisalignedRows m))"
    using n n3 by blast
  have c4: "(\<forall>r\<in>set (sz # szs). length (sz_serialize r) = length (sz_fields r))
        \<and> (\<exists>a\<in>set (sz # szs). \<exists>b\<in>set (sz # szs). length (sz_fields a) \<noteq> length (sz_fields b))
        \<longrightarrow> (\<exists>m. validate (from_serializable (sz # szs)) = Inl (MisalignedRows m))"
    using s s3 by blast
  from n s c1 c2 c3 c4 from_namedtuples_Cons [of str nt nts] from_serializable_Cons [of sz szs]
  show ?thesis by (intro conjI)
qed

theorem record_builders_defer_to_validate_witness:
  "from_namedtuples str_nat
     [\<lparr>nt_fields = [''name'', ''percentage''], nt_iter = [1, 25]\<rparr>,
      \<lparr>nt_fields = [''name'', ''percentage'', ''serial_no''], nt_iter = [2, 11, 69]\<rparr>]
     = [[''name'', ''percentage''], [''1'', ''25''], [''2'', ''11'', ''69'']]
   \<and> (\<exists>m. validate (from_namedtuples str_nat
              [\<lparr>nt_fields = [''name'', ''percentage''], nt_iter = [1, 25]\<rparr>,
               \<lparr>nt_fields = [''name'', ''percentage'', ''serial_no''], nt_iter = [2, 11, 69]\<rparr>])
            = Inl (MisalignedRows m))
   \<and> (\<exists>m. validate (from_serializable
              [\<lparr>sz_fields = [''name'', ''percentage''], sz_serialize = [''foo'', ''25.3%'']\<rparr>,
               \<lparr>sz_fields = [''name'', ''percentage'', ''serial_no''],
                sz_serialize = [''baz'', ''11.1%'', ''069'']\<rparr>])
            = Inl (MisalignedRows m))
   \<and> validate (from_serializable
              [\<lparr>sz_fields = [''name'', ''percentage''], sz_serialize = [''foo'', ''25.3%'']\<rparr>,
               \<lparr>sz_fields = [''name'', ''percentage'', ''serial_no''],
                sz_serialize = [''baz'', ''11.1%'', ''069'']\<rparr>])
       = Inl (MisalignedRows ''expected 2 cells, violated by rows 2'')"
proof -
  let ?n1 = "\<lparr>nt_fields = [''name'', ''percentage''], nt_iter = [1::nat, 25]\<rparr>"
  let ?n2 = "\<lparr>nt_fields = [''name'', ''percentage'', ''serial_no''], nt_iter = [2::nat, 11, 69]\<rparr>"
  let ?s1 = "\<lparr>sz_fields = [''name'', ''percentage''], sz_serialize = [''foo'', ''25.3%'']\<rparr>"
  let ?s2 = "\<lparr>sz_fields = [''name'', ''percentage'', ''serial_no''],
              sz_serialize = [''baz'', ''11.1%'', ''069'']\<rparr>"
  note t = record_builders_defer_to_validate [of str_nat ?n1 "[?n2]" ?s1 "[?s2]"]
  have a: "from_namedtuples str_nat [?n1, ?n2]
             = [[''name'', ''percentage''], [''1'', ''25''], [''2'', ''11'', ''69'']]"
    by code_simp
  have hn: "\<exists>a\<in>set [?n1, ?n2]. \<exists>b\<in>set [?n1, ?n2]. length (nt_iter a) \<noteq> length (nt_iter b)"
    by (intro bexI [of _ ?n1] bexI [of _ ?n2]) simp_all
  have hs: "\<exists>a\<in>set [?s1, ?s2]. \<exists>b\<in>set [?s1, ?s2]. length (sz_serialize a) \<noteq> length (sz_serialize b)"
    by (intro bexI [of _ ?s1] bexI [of _ ?s2]) simp_all
  from t hn have b: "\<exists>m. validate (from_namedtuples str_nat [?n1, ?n2]) = Inl (MisalignedRows m)"
    by blast
  from t hs have c: "\<exists>m. validate (from_serializable [?s1, ?s2]) = Inl (MisalignedRows m)"
    by blast
  have d: "validate (from_serializable [?s1, ?s2])
             = Inl (MisalignedRows ''expected 2 cells, violated by rows 2'')"
    by code_simp
  from a b c d show ?thesis by blast
qed

text \<open>
  C6 as stated fails: the fields of a later record are never read, so two records that
  differ in their number of fields alone, each yielding as many cells as the first record
  has fields, give a table on which \<open>validate\<close> returns normally.
\<close>

theorem record_builders_defer_to_validate_counterexample:
  "length (nt_fields \<lparr>nt_fields = [''a'', ''b''], nt_iter = [1::nat, 2]\<rparr>)
     \<noteq> length (nt_fields \<lparr>nt_fields = [''a'', ''b'', ''c''], nt_iter = [3::nat, 4]\<rparr>)
   \<and> from_namedtuples str_nat
         [\<lparr>nt_fields = [''a'', ''b''], nt_iter = [1, 2]\<rparr>,
          \<lparr>nt_fields = [''a'', ''b'', ''c''], nt_iter = [3, 4]\<rparr>]
       = [[''a'', ''b''], [''1'', ''2''], [''3'', ''4'']]
   \<and> validate (from_namedtuples str_nat
         [\<lparr>nt_fields = [''a'', ''b''], nt_iter = [1, 2]\<rparr>,
          \<lparr>nt_fields = [''a'', ''b'', ''c''], nt_iter = [3, 4]\<rparr>])
       = Inr ()
   \<and> length (sz_fields \<lparr>sz_fields = [''a'', ''b''], sz_serialize = [''1'', ''2'']\<rparr>)
       \<noteq> length (sz_fields \<lparr>sz_fields = [''a'', ''b'', ''c''], sz_serialize = [''3'', ''4'']\<rparr>)
   \<and> validate (from_serializable
         [\<lparr>sz_fields = [''a'', ''b''], sz_serialize = [''1'', ''2'']\<rparr>,
          \<lparr>sz_fields = [''a'', ''b'', ''c''], sz_serialize = [''3'', ''4'']\<rparr>])
       = Inr ()"
  by code_simp




end
